theory Spec2Isabelle
  imports Main
begin

section \<open>Lens traversal of \<open>BaseEntity.load\<close>\<close>

text \<open>
  The development embeds the method \<open>BaseEntity.load(fn)\<close>:
  \<^verbatim>\<open>
  const paths: string[] = [];
  const proxy = new Proxy({}, { get(object, property, receiver) {
      paths.push(String(property)); return receiver; } });
  fn(proxy);
  let current: any = this;
  for await (const path of paths) {
    if (Array.isArray(current)) {
      current = (await Promise.all(current.map((c) => c[path].load()))).flat();
      current = [...new Set(current)];
    } else {
      current = await current[path].load();
    }
  }
  return current!;
  \<close>
  The method is asynchronous: a thrown exception and a rejected promise both reject the
  promise it returns. A rejected call is \<open>Inl\<close> of the error, a fulfilled one \<open>Inr\<close> of
  the value.
\<close>

subsection \<open>Values\<close>

text \<open>
  An entity is identified by its object reference, a number here. What a \<open>Reference\<close>
  loads is an entity or \<open>undefined\<close>; the variable \<open>current\<close> holds such a value or an
  array of them (\<open>Array.isArray\<close> tells the two apart).
\<close>

type_synonym node = nat

datatype item = Entity node | Undefined

datatype frontier = Single item | Many "item list"

datatype error = TypeError | LoadError string

text \<open>
  The relations \<open>Reference\<close> and \<open>Collection\<close> are imported by the source, not defined
  in it; the object graph is a parameter. \<open>g n p\<close> is the property \<open>p\<close> of the entity
  \<open>n\<close>: \<open>None\<close> when it is no relation (it has no \<open>load\<close> method), a reference that
  loads an entity or \<open>undefined\<close>, a collection that loads an array of entities, or a
  relation whose \<open>load()\<close> rejects. The number of a failing relation is the moment its
  promise settles, which decides the error of a \<open>Promise.all\<close> over several rejections.
\<close>

datatype edge = Reference item | Collection "node list" | Failing nat error

type_synonym graph = "node \<Rightarrow> string \<Rightarrow> edge option"

datatype promise = Fulfils frontier | Rejects nat error

subsection \<open>The path recorder\<close>

text \<open>
  A property key reaches the \<open>get\<close> trap as a string or as a symbol; \<open>String(property)\<close>
  leaves a string as it is and prints a symbol with its description.
\<close>

datatype key = Str string | Sym string

fun String_of :: "key \<Rightarrow> string" where
  "String_of (Str s) = s"
| "String_of (Sym d) = ''Symbol('' @ d @ '')''"

text \<open>
  The \<open>get\<close> trap pushes the name on \<open>paths\<close> and returns the receiver, which is the
  proxy again: the proxy is the only value a traversal function ever holds.
\<close>

definition get_trap :: "string list \<Rightarrow> key \<Rightarrow> string list" where
  "get_trap paths property = paths @ [String_of property]"

text \<open>
  The body of a traversal function \<open>fn\<close>, as an expression over its parameter:
  the parameter itself, a property read \<open>e[k]\<close>, a sequence \<open>(e1, e2)\<close> that evaluates
  both and keeps the second, and a call \<open>e()\<close>. The target of the proxy is the plain
  object \<open>{}\<close>, so the proxy is not callable and a call throws a \<open>TypeError\<close>.
\<close>

datatype lens_fn = Lens | Get lens_fn key | Comma lens_fn lens_fn | Call lens_fn

text \<open>
  \<open>fn(proxy)\<close>, threading \<open>paths\<close>. The value of the expression is not part of the
  result: the source discards it.
\<close>

fun apply_fn :: "lens_fn \<Rightarrow> string list \<Rightarrow> error + string list" where
  "apply_fn Lens paths = Inr paths"
| "apply_fn (Get e k) paths =
     (case apply_fn e paths of Inl x \<Rightarrow> Inl x | Inr paths' \<Rightarrow> Inr (get_trap paths' k))"
| "apply_fn (Comma e1 e2) paths =
     (case apply_fn e1 paths of Inl x \<Rightarrow> Inl x | Inr paths' \<Rightarrow> apply_fn e2 paths')"
| "apply_fn (Call e) paths =
     (case apply_fn e paths of Inl x \<Rightarrow> Inl x | Inr paths' \<Rightarrow> Inl TypeError)"

text \<open>The recorder: \<open>paths\<close> starts empty and \<open>fn\<close> is applied to the proxy once.\<close>

definition record_paths :: "lens_fn \<Rightarrow> error + string list" where
  "record_paths fn = apply_fn fn []"

text \<open>A pure chain of property reads \<open>lens[k1][k2]...[kn]\<close>.\<close>

definition chain :: "key list \<Rightarrow> lens_fn" where
  "chain ks = foldl Get Lens ks"

subsection \<open>The graph walker\<close>

text \<open>
  \<open>c[path].load()\<close>: reading a property of \<open>undefined\<close> throws, and so does calling
  the \<open>load\<close> of a property that is no relation; otherwise the call returns a promise.
\<close>

fun edge_load :: "edge \<Rightarrow> promise" where
  "edge_load (Reference r) = Fulfils (Single r)"
| "edge_load (Collection ns) = Fulfils (Many (map Entity ns))"
| "edge_load (Failing t e) = Rejects t e"

fun invoke_load :: "graph \<Rightarrow> item \<Rightarrow> string \<Rightarrow> error + promise" where
  "invoke_load g Undefined path = Inl TypeError"
| "invoke_load g (Entity n) path =
     (case g n path of None \<Rightarrow> Inl TypeError | Some e \<Rightarrow> Inr (edge_load e))"

fun await :: "promise \<Rightarrow> error + frontier" where
  "await (Fulfils v) = Inr v"
| "await (Rejects t e) = Inl e"

text \<open>
  \<open>current.map(f)\<close> calls \<open>f\<close> on the members in order; the first exception thrown by
  \<open>f\<close> leaves the \<open>map\<close>.
\<close>

fun array_map :: "('a \<Rightarrow> error + 'b) \<Rightarrow> 'a list \<Rightarrow> error + 'b list" where
  "array_map f [] = Inr []"
| "array_map f (c # cs) =
     (case f c of
        Inl e \<Rightarrow> Inl e
      | Inr y \<Rightarrow> (case array_map f cs of Inl e \<Rightarrow> Inl e | Inr ys \<Rightarrow> Inr (y # ys)))"

text \<open>
  \<open>Promise.all\<close> rejects with the rejection that settles first (the earlier member when
  two settle together) and otherwise fulfils with the values in the order of the members.
\<close>

fun rejections :: "promise list \<Rightarrow> (nat \<times> error) list" where
  "rejections [] = []"
| "rejections (Fulfils v # ps) = rejections ps"
| "rejections (Rejects t e # ps) = (t, e) # rejections ps"

fun fulfilled :: "promise list \<Rightarrow> frontier list" where
  "fulfilled [] = []"
| "fulfilled (Fulfils v # ps) = v # fulfilled ps"
| "fulfilled (Rejects t e # ps) = fulfilled ps"

fun earliest :: "(nat \<times> error) list \<Rightarrow> (nat \<times> error) option" where
  "earliest [] = None"
| "earliest ((t, e) # rs) =
     (case earliest rs of
        None \<Rightarrow> Some (t, e)
      | Some (t', e') \<Rightarrow> if t \<le> t' then Some (t, e) else Some (t', e'))"

definition Promise_all :: "promise list \<Rightarrow> error + frontier list" where
  "Promise_all ps =
     (case earliest (rejections ps) of
        Some (t, e) \<Rightarrow> Inl e
      | None \<Rightarrow> Inr (fulfilled ps))"

text \<open>
  \<open>.flat()\<close> splices the arrays among the loaded values one level deep and keeps every
  other value, \<open>undefined\<close> included.
\<close>

fun flat :: "frontier list \<Rightarrow> item list" where
  "flat [] = []"
| "flat (Single i # vs) = i # flat vs"
| "flat (Many xs # vs) = xs @ flat vs"

text \<open>
  \<open>[...new Set(current)]\<close>: a set keeps its members in insertion order, and adding a
  member it already holds changes nothing.
\<close>

definition Set_add :: "'a list \<Rightarrow> 'a \<Rightarrow> 'a list" where
  "Set_add s x = (if x \<in> set s then s else s @ [x])"

definition new_Set :: "'a list \<Rightarrow> 'a list" where
  "new_Set xs = foldl Set_add [] xs"

text \<open>The body of the loop, for one \<open>path\<close>.\<close>

fun hop :: "graph \<Rightarrow> frontier \<Rightarrow> string \<Rightarrow> error + frontier" where
  "hop g (Many cs) path =
     (case array_map (\<lambda>c. invoke_load g c path) cs of
        Inl e \<Rightarrow> Inl e
      | Inr ps \<Rightarrow>
          (case Promise_all ps of
             Inl e \<Rightarrow> Inl e
           | Inr vs \<Rightarrow> Inr (Many (new_Set (flat vs)))))"
| "hop g (Single c) path =
     (case invoke_load g c path of Inl e \<Rightarrow> Inl e | Inr p \<Rightarrow> await p)"

text \<open>The loop over \<open>paths\<close>: an error leaves it, and the method.\<close>

fun walk :: "graph \<Rightarrow> frontier \<Rightarrow> string list \<Rightarrow> error + frontier" where
  "walk g current [] = Inr current"
| "walk g current (path # paths) =
     (case hop g current path of
        Inl e \<Rightarrow> Inl e
      | Inr current' \<Rightarrow> walk g current' paths)"

definition load :: "graph \<Rightarrow> node \<Rightarrow> lens_fn \<Rightarrow> error + frontier" where
  "load g this fn =
     (case record_paths fn of
        Inl e \<Rightarrow> Inl e
      | Inr paths \<Rightarrow> walk g (Single (Entity this)) paths)"

subsection \<open>Notions used to state the properties\<close>

text \<open>
  The index at which a value is first seen in a list (the length of the list when it
  does not occur).
\<close>

definition first_seen :: "'a list \<Rightarrow> 'a \<Rightarrow> nat" where
  "first_seen xs x = length (takeWhile (\<lambda>y. y \<noteq> x) xs)"

text \<open>
  The entities of a frontier: the value itself, or the members of the array.
\<close>

definition members :: "frontier \<Rightarrow> item list" where
  "members current = (case current of Single c \<Rightarrow> [c] | Many cs \<Rightarrow> cs)"

text \<open>
  Resolving a path of singular edges one step at a time: every hop must be a reference
  that is set.
\<close>

fun resolve_chain :: "graph \<Rightarrow> node \<Rightarrow> string list \<Rightarrow> node option" where
  "resolve_chain g n [] = Some n"
| "resolve_chain g n (e # es) =
     (case g n e of
        Some (Reference (Entity m)) \<Rightarrow> resolve_chain g m es
      | _ \<Rightarrow> None)"

text \<open>
  The property keys a traversal function reads, in the order of evaluation, and whether
  it contains a call.
\<close>

fun reads :: "lens_fn \<Rightarrow> key list" where
  "reads Lens = []"
| "reads (Get e k) = reads e @ [k]"
| "reads (Comma e1 e2) = reads e1 @ reads e2"
| "reads (Call e) = reads e"

fun has_call :: "lens_fn \<Rightarrow> bool" where
  "has_call Lens = False"
| "has_call (Get e k) = has_call e"
| "has_call (Comma e1 e2) = (has_call e1 \<or> has_call e2)"
| "has_call (Call e) = True"

text \<open>
  An object graph to evaluate the definitions on: a publisher (0) with two authors (1, 2),
  the books (3, 4) of the first author, their images (5, 6, 7) and a review (8). The second
  book has no image, the reviews of the second book and of the authors fail to load, and
  the custom collection \<open>highlights\<close> of the publisher lists an image twice.
\<close>

definition library :: graph where
  "library n p = map_of
     [((0, ''authors''), Collection [1, 2]),
      ((0, ''highlights''), Collection [5, 5]),
      ((1, ''publisher''), Reference (Entity 0)),
      ((2, ''publisher''), Reference (Entity 0)),
      ((1, ''image''), Reference (Entity 6)),
      ((2, ''image''), Reference (Entity 7)),
      ((1, ''books''), Collection [3, 4]),
      ((2, ''books''), Collection []),
      ((1, ''reviews''), Failing 2 (LoadError ''connection lost'')),
      ((2, ''reviews''), Failing 1 (LoadError ''timeout'')),
      ((3, ''author''), Reference (Entity 1)),
      ((4, ''author''), Reference (Entity 1)),
      ((3, ''image''), Reference (Entity 5)),
      ((4, ''image''), Reference Undefined),
      ((3, ''reviews''), Collection [8]),
      ((4, ''reviews''), Failing 1 (LoadError ''timeout'')),
      ((8, ''book''), Reference (Entity 3))] (n, p)"

section \<open>The recorder\<close>

lemma apply_fn_foldl_Get:
  "apply_fn (foldl Get e ks) paths =
     (case apply_fn e paths of
        Inl x \<Rightarrow> Inl x
      | Inr paths' \<Rightarrow> Inr (paths' @ map String_of ks))"
proof (induction ks arbitrary: e)
  case Nil
  show ?case by (simp split: sum.splits)
next
  case (Cons k ks)
  show ?case
    by (simp add: Cons.IH get_trap_def split: sum.splits)
qed

lemma record_paths_chain: "record_paths (chain ks) = Inr (map String_of ks)"
  by (simp add: record_paths_def chain_def apply_fn_foldl_Get)

lemma map_String_of_Str: "map (String_of \<circ> Str) hs = hs"
  by (induction hs) simp_all

lemma apply_fn_reads:
  "apply_fn fn paths =
     (if has_call fn then Inl TypeError else Inr (paths @ map String_of (reads fn)))"
  by (induction fn arbitrary: paths) (simp_all add: get_trap_def)

text \<open>
  Claim C1 (path fidelity). A traversal function that is a pure chain of property reads
  \<open>h1, ..., hn\<close> on the probe records exactly \<open>[h1, ..., hn]\<close>, in the order of the
  reads; the recorder takes no graph, and on every graph \<open>load\<close> replays exactly that
  path from the receiver. The function is applied once, to the empty \<open>paths\<close>, and only
  the names it leaves there are used.
\<close>

theorem path_fidelity:
  "record_paths (chain (map Str hs)) = Inr hs
   \<and> load g this (chain (map Str hs)) = walk g (Single (Entity this)) hs"
  by (simp add: load_def record_paths_chain map_String_of_Str)

section \<open>Sets, batches and hops\<close>

lemma walk_append:
  "walk g c (xs @ ys) = (case walk g c xs of Inl e \<Rightarrow> Inl e | Inr c' \<Rightarrow> walk g c' ys)"
  by (induction xs arbitrary: c) (simp_all split: sum.splits)

lemma set_foldl_Set_add: "set (foldl Set_add s xs) = set s \<union> set xs"
  by (induction xs arbitrary: s) (auto simp: Set_add_def)

lemma distinct_foldl_Set_add: "distinct s \<Longrightarrow> distinct (foldl Set_add s xs)"
  by (induction xs arbitrary: s) (auto simp: Set_add_def)

lemma set_new_Set: "set (new_Set xs) = set xs"
  by (simp add: new_Set_def set_foldl_Set_add)

lemma distinct_new_Set: "distinct (new_Set xs)"
  by (simp add: new_Set_def distinct_foldl_Set_add)

lemma new_Set_snoc: "new_Set (xs @ [x]) = Set_add (new_Set xs) x"
  by (simp add: new_Set_def)

lemma first_seen_snoc_mem: "a \<in> set xs \<Longrightarrow> first_seen (xs @ [x]) a = first_seen xs a"
  unfolding first_seen_def by (induction xs) auto

lemma first_seen_less: "a \<in> set xs \<Longrightarrow> first_seen xs a < length xs"
  unfolding first_seen_def by (induction xs) auto

lemma first_seen_snoc_new: "x \<notin> set xs \<Longrightarrow> first_seen (xs @ [x]) x = length xs"
  unfolding first_seen_def by (induction xs) auto

lemma new_Set_first_seen:
  "sorted_wrt (\<lambda>a b. first_seen xs a < first_seen xs b) (new_Set xs)"
proof (induction xs rule: rev_induct)
  case Nil
  show ?case by (simp add: new_Set_def)
next
  case (snoc x xs)
  have mono: "sorted_wrt (\<lambda>a b. first_seen (xs @ [x]) a < first_seen (xs @ [x]) b) (new_Set xs)"
    using snoc.IH
    by (rule sorted_wrt_mono_rel[rotated]) (simp add: set_new_Set first_seen_snoc_mem)
  show ?case
  proof (cases "x \<in> set xs")
    case True
    then show ?thesis using mono by (simp add: new_Set_snoc Set_add_def set_new_Set)
  next
    case False
    then show ?thesis using mono
      by (simp add: new_Set_snoc Set_add_def set_new_Set sorted_wrt_append
          first_seen_snoc_mem first_seen_snoc_new first_seen_less)
  qed
qed

lemma array_map_Inl: "array_map f cs = Inl e \<Longrightarrow> \<exists>c\<in>set cs. f c = Inl e"
  by (induction cs) (auto split: sum.splits)

lemma array_map_Inr: "array_map f cs = Inr ys \<Longrightarrow> list_all2 (\<lambda>c y. f c = Inr y) cs ys"
  by (induction cs arbitrary: ys) (auto split: sum.splits)

lemma array_map_Inr_iff: "array_map f cs = Inr ys \<longleftrightarrow> list_all2 (\<lambda>c y. f c = Inr y) cs ys"
proof
  show "array_map f cs = Inr ys \<Longrightarrow> list_all2 (\<lambda>c y. f c = Inr y) cs ys"
    by (rule array_map_Inr)
  show "list_all2 (\<lambda>c y. f c = Inr y) cs ys \<Longrightarrow> array_map f cs = Inr ys"
    by (induction cs ys rule: list_all2_induct) simp_all
qed

lemma earliest_None: "earliest rs = None \<longleftrightarrow> rs = []"
  by (cases rs) (auto split: option.splits)

lemma earliest_mem: "earliest rs = Some r \<Longrightarrow> r \<in> set rs"
  by (induction rs arbitrary: r) (auto split: option.splits if_splits)

lemma rejections_mem: "(t, e) \<in> set (rejections ps) \<longleftrightarrow> Rejects t e \<in> set ps"
  by (induction ps rule: rejections.induct) auto

lemma list_all2_setD1: "list_all2 P xs ys \<Longrightarrow> x \<in> set xs \<Longrightarrow> \<exists>y\<in>set ys. P x y"
  by (induction rule: list_all2_induct) auto

lemma list_all2_setD2: "list_all2 P xs ys \<Longrightarrow> y \<in> set ys \<Longrightarrow> \<exists>x\<in>set xs. P x y"
  by (induction rule: list_all2_induct) auto

lemma hop_Single_Inr: "hop g (Single c) p = Inr v \<longleftrightarrow> invoke_load g c p = Inr (Fulfils v)"
proof (cases "invoke_load g c p")
  case (Inl e)
  then show ?thesis by simp
next
  case (Inr pr)
  then show ?thesis by (cases pr) simp_all
qed

lemma hop_Single_Inl:
  "hop g (Single c) p = Inl e \<longleftrightarrow>
     invoke_load g c p = Inl e \<or> (\<exists>t. invoke_load g c p = Inr (Rejects t e))"
proof (cases "invoke_load g c p")
  case (Inl e')
  then show ?thesis by simp
next
  case (Inr pr)
  then show ?thesis by (cases pr) simp_all
qed

lemma rejections_Nil_map: "rejections ps = [] \<Longrightarrow> ps = map Fulfils (fulfilled ps)"
  by (induction ps rule: rejections.induct) simp_all

lemma rejections_map_Fulfils: "rejections (map Fulfils vs) = []"
  by (induction vs) simp_all

lemma fulfilled_map_Fulfils: "fulfilled (map Fulfils vs) = vs"
  by (induction vs) simp_all

lemma Promise_all_Inr: "Promise_all ps = Inr vs \<longleftrightarrow> ps = map Fulfils vs"
proof
  assume "Promise_all ps = Inr vs"
  then have "rejections ps = []" and "vs = fulfilled ps"
    by (auto simp: Promise_all_def earliest_None split: option.splits)
  then show "ps = map Fulfils vs"
    using rejections_Nil_map by simp
next
  assume "ps = map Fulfils vs"
  then show "Promise_all ps = Inr vs"
    by (simp add: Promise_all_def rejections_map_Fulfils fulfilled_map_Fulfils)
qed

lemma hop_Many_Inr:
  "hop g (Many cs) p = Inr r \<longleftrightarrow>
     (\<exists>vs. array_map (\<lambda>c. hop g (Single c) p) cs = Inr vs \<and> r = Many (new_Set (flat vs)))"
proof
  assume h: "hop g (Many cs) p = Inr r"
  then obtain ps vs where ps: "array_map (\<lambda>c. invoke_load g c p) cs = Inr ps"
    and vs: "Promise_all ps = Inr vs" and r: "r = Many (new_Set (flat vs))"
    by (auto split: sum.splits)
  from vs have "ps = map Fulfils vs" by (simp add: Promise_all_Inr)
  with ps have "list_all2 (\<lambda>c v. invoke_load g c p = Inr (Fulfils v)) cs vs"
    by (simp add: array_map_Inr_iff list_all2_map2)
  then have "array_map (\<lambda>c. hop g (Single c) p) cs = Inr vs"
    by (simp add: array_map_Inr_iff hop_Single_Inr del: hop.simps)
  with r show "\<exists>vs. array_map (\<lambda>c. hop g (Single c) p) cs = Inr vs \<and> r = Many (new_Set (flat vs))"
    by blast
next
  assume "\<exists>vs. array_map (\<lambda>c. hop g (Single c) p) cs = Inr vs \<and> r = Many (new_Set (flat vs))"
  then obtain vs where vs: "array_map (\<lambda>c. hop g (Single c) p) cs = Inr vs"
    and r: "r = Many (new_Set (flat vs))" by blast
  from vs have "list_all2 (\<lambda>c pr. invoke_load g c p = Inr pr) cs (map Fulfils vs)"
    by (simp add: array_map_Inr_iff hop_Single_Inr list_all2_map2 del: hop.simps)
  then have "array_map (\<lambda>c. invoke_load g c p) cs = Inr (map Fulfils vs)"
    by (simp add: array_map_Inr_iff)
  moreover have "Promise_all (map Fulfils vs) = Inr vs" by (simp add: Promise_all_Inr)
  ultimately show "hop g (Many cs) p = Inr r" using r by simp
qed

lemma hop_Many_is_Many: "hop g (Many cs) p = Inr r \<Longrightarrow> \<exists>ys. r = Many ys \<and> distinct ys"
  by (auto simp: hop_Many_Inr distinct_new_Set simp del: hop.simps)

lemma hop_Many_fails:
  assumes "c \<in> set cs" and "hop g (Single c) p = Inl e"
  shows "\<exists>c' e'. c' \<in> set cs \<and> hop g (Single c') p = Inl e' \<and> hop g (Many cs) p = Inl e'"
proof (cases "array_map (\<lambda>c. invoke_load g c p) cs")
  case (Inl e')
  then obtain c' where "c' \<in> set cs" "invoke_load g c' p = Inl e'"
    using array_map_Inl by fastforce
  moreover from Inl have "hop g (Many cs) p = Inl e'" by simp
  ultimately show ?thesis by (auto simp: hop_Single_Inl simp del: hop.simps)
next
  case (Inr ps)
  then have all2: "list_all2 (\<lambda>c pr. invoke_load g c p = Inr pr) cs ps"
    by (simp add: array_map_Inr_iff)
  from all2 assms(1) obtain pr where "pr \<in> set ps" "invoke_load g c p = Inr pr"
    by (blast dest: list_all2_setD1)
  with assms(2) obtain t where "Rejects t e \<in> set ps"
    by (auto simp: hop_Single_Inl simp del: hop.simps)
  then have "rejections ps \<noteq> []" by (auto simp flip: rejections_mem)
  then obtain t' e' where ear: "earliest (rejections ps) = Some (t', e')"
    by (cases "earliest (rejections ps)") (auto simp: earliest_None)
  then have "Rejects t' e' \<in> set ps" using earliest_mem rejections_mem by fastforce
  with all2 obtain c' where "c' \<in> set cs" "invoke_load g c' p = Inr (Rejects t' e')"
    by (blast dest: list_all2_setD2)
  moreover have "hop g (Many cs) p = Inl e'" using Inr ear by (simp add: Promise_all_def)
  ultimately show ?thesis by (auto simp: hop_Single_Inl simp del: hop.simps)
qed

lemma walk_append_Inr:
  "walk g c (xs @ ys) = Inr r \<Longrightarrow> \<exists>c'. walk g c xs = Inr c' \<and> walk g c' ys = Inr r"
  by (auto simp: walk_append split: sum.splits)

lemma walk_Many: "walk g (Many cs) ps = Inr r \<Longrightarrow> \<exists>ys. r = Many ys"
proof (induction ps arbitrary: cs)
  case Nil
  then show ?case by auto
next
  case (Cons p ps)
  then show ?case
    by (auto split: sum.splits dest!: hop_Many_is_Many simp del: hop.simps)
qed

lemma Single_in_flat: "Single i \<in> set vs \<Longrightarrow> i \<in> set (flat vs)"
  by (induction vs rule: flat.induct) auto

lemma ex_list_all2: "\<forall>x\<in>set xs. \<exists>y. P x y \<Longrightarrow> \<exists>ys. list_all2 P xs ys"
proof (induction xs)
  case Nil
  show ?case by simp
next
  case (Cons x xs)
  then obtain y ys where "P x y" "list_all2 P xs ys" by auto
  then have "list_all2 P (x # xs) (y # ys)" by simp
  then show ?case by blast
qed

lemma resolve_chain_walk:
  "resolve_chain g n es = Some m \<Longrightarrow> walk g (Single (Entity n)) es = Inr (Single (Entity m))"
proof (induction es arbitrary: n)
  case Nil
  then show ?case by simp
next
  case (Cons e es)
  then show ?case
    by (auto split: option.splits edge.splits item.splits)
qed

lemma hop_fails_member:
  assumes "c \<in> set (members cur)" and "hop g (Single c) path = Inl e"
  shows "\<exists>c' e'. c' \<in> set (members cur) \<and> hop g (Single c') path = Inl e'
           \<and> hop g cur path = Inl e'"
proof (cases cur)
  case (Single c1)
  with assms show ?thesis by (auto simp: members_def simp del: hop.simps)
next
  case (Many cs)
  with assms show ?thesis using hop_Many_fails [of c cs g path e] by (simp add: members_def)
qed

lemma walk_fails_at:
  "walk g root pre = Inr cur \<Longrightarrow> hop g cur path = Inl e \<Longrightarrow>
     walk g root (pre @ path # rest) = Inl e"
  by (simp add: walk_append)

lemma walk_Single_Undefined:
  assumes "walk g root paths = Inr (Single Undefined)" and "k < length paths"
  shows "\<exists>m. walk g root (take k paths) = Inr (Single (Entity m))"
proof -
  from assms(2) obtain p ps where d: "drop k paths = p # ps"
    by (cases "drop k paths") simp_all
  have "walk g root (take k paths @ drop k paths) = Inr (Single Undefined)"
    using assms(1) by simp
  then obtain c where c: "walk g root (take k paths) = Inr c"
    and r: "walk g c (drop k paths) = Inr (Single Undefined)"
    using walk_append_Inr by blast
  show ?thesis
  proof (cases c)
    case (Many cs)
    with r show ?thesis using walk_Many by blast
  next
    case (Single i)
    show ?thesis
    proof (cases i)
      case Undefined
      with Single r d show ?thesis by simp
    next
      case (Entity m)
      with Single c show ?thesis by simp
    qed
  qed
qed

lemma await_edge_load_Single: "await (edge_load x) = Inr (Single i) \<longleftrightarrow> x = Reference i"
  by (cases x) auto

section \<open>The walker\<close>

text \<open>
  Claim C2 (fan-out flattening keeps the order of the frontier). When the plural edge
  \<open>e1\<close> of the root \<open>A\<close> loads \<open>[B1, B2]\<close> and the singular edge \<open>e2\<close> of each \<open>Bi\<close>
  loads \<open>Ci\<close>, with \<open>C1\<close> and \<open>C2\<close> two entities, walking \<open>[e1, e2]\<close> returns the array
  \<open>[C1, C2]\<close>: \<open>C1\<close> before \<open>C2\<close>, as \<open>B1\<close> is before \<open>B2\<close>.
\<close>

theorem fanout_order:
  assumes "g A e1 = Some (Collection [B1, B2])"
    and "g B1 e2 = Some (Reference (Entity C1))"
    and "g B2 e2 = Some (Reference (Entity C2))"
    and "C1 \<noteq> C2"
  shows "walk g (Single (Entity A)) [e1, e2] = Inr (Many [Entity C1, Entity C2])"
  using assms by (simp add: Promise_all_def new_Set_def Set_add_def)

theorem fanout_order_witness:
  "library 0 ''authors'' = Some (Collection [1, 2])
   \<and> library 1 ''image'' = Some (Reference (Entity 6))
   \<and> library 2 ''image'' = Some (Reference (Entity 7))
   \<and> walk library (Single (Entity 0)) [''authors'', ''image'']
       = Inr (Many [Entity 6, Entity 7])"
  using fanout_order [of library 0 "''authors''" 1 2 "''image''" 6 7]
  by (simp add: library_def)

text \<open>
  Claim C3 (de-duplication after a hop from a sequence). When the frontier is an array,
  the hop resolves the edge on every member, flattens the loaded values and de-duplicates
  them: the result has no value twice, holds exactly the flattened values, and lists them
  in the order in which they are first seen. In particular, when \<open>e1\<close> of \<open>A\<close> loads
  \<open>[B1, B2]\<close> and \<open>e2\<close> of both \<open>B1\<close> and \<open>B2\<close> loads the same \<open>C\<close>, walking \<open>[e1, e2]\<close>
  returns the one-element array \<open>[C]\<close>.
\<close>

theorem dedup_after_plural_hop:
  "(hop g (Many cs) path = Inr r \<longrightarrow>
      (\<exists>vs. array_map (\<lambda>c. hop g (Single c) path) cs = Inr vs
        \<and> r = Many (new_Set (flat vs))
        \<and> distinct (new_Set (flat vs))
        \<and> set (new_Set (flat vs)) = set (flat vs)
        \<and> sorted_wrt (\<lambda>a b. first_seen (flat vs) a < first_seen (flat vs) b)
             (new_Set (flat vs))))
   \<and> (g A e1 = Some (Collection [B1, B2])
        \<and> g B1 e2 = Some (Reference (Entity C))
        \<and> g B2 e2 = Some (Reference (Entity C))
      \<longrightarrow> walk g (Single (Entity A)) [e1, e2] = Inr (Many [Entity C]))"
proof (intro conjI impI)
  assume "hop g (Many cs) path = Inr r"
  then obtain vs where "array_map (\<lambda>c. hop g (Single c) path) cs = Inr vs"
    and "r = Many (new_Set (flat vs))"
    unfolding hop_Many_Inr by blast
  then show "\<exists>vs. array_map (\<lambda>c. hop g (Single c) path) cs = Inr vs
        \<and> r = Many (new_Set (flat vs))
        \<and> distinct (new_Set (flat vs))
        \<and> set (new_Set (flat vs)) = set (flat vs)
        \<and> sorted_wrt (\<lambda>a b. first_seen (flat vs) a < first_seen (flat vs) b)
             (new_Set (flat vs))"
    by (simp add: distinct_new_Set set_new_Set new_Set_first_seen)
next
  assume "g A e1 = Some (Collection [B1, B2])
        \<and> g B1 e2 = Some (Reference (Entity C))
        \<and> g B2 e2 = Some (Reference (Entity C))"
  then show "walk g (Single (Entity A)) [e1, e2] = Inr (Many [Entity C])"
    by (simp add: Promise_all_def new_Set_def Set_add_def)
qed

theorem dedup_after_plural_hop_witness:
  "hop library (Many [Entity 1, Entity 2]) ''publisher'' = Inr (Many [Entity 0])
   \<and> array_map (\<lambda>c. hop library (Single c) ''publisher'') [Entity 1, Entity 2]
       = Inr [Single (Entity 0), Single (Entity 0)]
   \<and> library 0 ''authors'' = Some (Collection [1, 2])
   \<and> library 1 ''publisher'' = Some (Reference (Entity 0))
   \<and> library 2 ''publisher'' = Some (Reference (Entity 0))
   \<and> walk library (Single (Entity 0)) [''authors'', ''publisher''] = Inr (Many [Entity 0])"
  using dedup_after_plural_hop [of library "[Entity 1, Entity 2]" "''publisher''"
      "Many [Entity 0]" 0 "''authors''" 1 2 "''publisher''" 0]
  by (simp add: library_def Promise_all_def new_Set_def Set_add_def)

text \<open>
  Claim C4 (absent targets in a fanned-out frontier). The claim is that an unset
  singular edge of a member is left out of the resulting array. The source does not
  filter: \<open>.flat()\<close> keeps \<open>undefined\<close> and the set keeps one copy of it. For the author 1,
  whose second book has no image, the path \<open>books.image\<close> returns an array that holds
  \<open>undefined\<close>.
\<close>

theorem absent_not_filtered_counterexample:
  "walk library (Single (Entity 1)) [''books'', ''image''] = Inr (Many [Entity 5, Undefined])"
  by (simp add: library_def Promise_all_def new_Set_def Set_add_def)

text \<open>
  Claim C4, as the source has it. When every member of an array frontier resolves the
  edge and one of them resolves it to \<open>undefined\<close>, the hop throws no error and returns an
  array that holds \<open>undefined\<close>, once.
\<close>

theorem absent_kept_in_sequence:
  assumes "\<forall>c\<in>set cs. \<exists>v. hop g (Single c) path = Inr v"
    and "c0 \<in> set cs"
    and "hop g (Single c0) path = Inr (Single Undefined)"
  shows "\<exists>ys. hop g (Many cs) path = Inr (Many ys) \<and> Undefined \<in> set ys \<and> distinct ys"
proof -
  from assms(1) obtain vs where vs: "list_all2 (\<lambda>c v. hop g (Single c) path = Inr v) cs vs"
    using ex_list_all2 [of cs "\<lambda>c v. hop g (Single c) path = Inr v"] by blast
  then have "hop g (Many cs) path = Inr (Many (new_Set (flat vs)))"
    unfolding hop_Many_Inr array_map_Inr_iff by blast
  moreover from vs assms(2) obtain v where "v \<in> set vs" "hop g (Single c0) path = Inr v"
    by (blast dest: list_all2_setD1)
  with assms(3) have "Single Undefined \<in> set vs" by simp
  then have "Undefined \<in> set (new_Set (flat vs))"
    by (simp add: set_new_Set Single_in_flat)
  ultimately show ?thesis using distinct_new_Set by blast
qed

theorem absent_kept_in_sequence_witness:
  "hop library (Single (Entity 3)) ''image'' = Inr (Single (Entity 5))
   \<and> hop library (Single (Entity 4)) ''image'' = Inr (Single Undefined)
   \<and> (\<exists>ys. hop library (Many [Entity 3, Entity 4]) ''image'' = Inr (Many ys)
         \<and> Undefined \<in> set ys \<and> distinct ys)"
proof -
  have m3: "hop library (Single (Entity 3)) ''image'' = Inr (Single (Entity 5))"
    by (simp add: library_def)
  have h3: "hop library (Single (Entity 4)) ''image'' = Inr (Single Undefined)"
    by (simp add: library_def)
  have h1: "\<forall>c\<in>set [Entity 3, Entity 4]. \<exists>v. hop library (Single c) ''image'' = Inr v"
    using m3 h3 by (simp del: hop.simps)
  have h2: "Entity 4 \<in> set [Entity 3, Entity 4]" by simp
  show ?thesis using m3 h3 absent_kept_in_sequence [OF h1 h2 h3] by blast
qed

text \<open>
  Claim C5 (de-duplication after the first fan-out). The claim is that the array loaded
  from a single entity is de-duplicated too. The branch of the source for a frontier that
  is no array assigns the loaded value as it is: the publisher's \<open>highlights\<close>, which
  lists image 5 twice, is returned with both copies.
\<close>

theorem first_fanout_not_deduplicated_counterexample:
  "load library 0 (chain [Str ''highlights'']) = Inr (Many [Entity 5, Entity 5])"
  by (simp add: load_def record_paths_chain library_def)

text \<open>
  Claim C5, as the source has it. A hop from a single entity through a collection makes
  the loaded array the frontier as it is, in its order and with its duplicates; only a hop
  from an array frontier returns an array without duplicates.
\<close>

theorem dedup_only_from_sequence:
  "(g n path = Some (Collection ns) \<longrightarrow>
      hop g (Single (Entity n)) path = Inr (Many (map Entity ns)))
   \<and> (hop g (Many cs) path = Inr r \<longrightarrow> (\<exists>ys. r = Many ys \<and> distinct ys))"
  using hop_Many_is_Many by auto

theorem dedup_only_from_sequence_witness:
  "library 0 ''highlights'' = Some (Collection [5, 5])
   \<and> hop library (Single (Entity 0)) ''highlights'' = Inr (Many [Entity 5, Entity 5])
   \<and> hop library (Many [Entity 1, Entity 2]) ''publisher'' = Inr (Many [Entity 0])
   \<and> distinct [Entity 0]"
  using dedup_only_from_sequence [of library 0 "''highlights''" "[5, 5]"
      "[Entity 1, Entity 2]" "Many [Entity 0]"]
  by (simp add: library_def Promise_all_def new_Set_def Set_add_def)

text \<open>
  Claim C6 (all-or-nothing failure). The claim is that when any one edge resolution
  fails, also that of one member of a batch, the whole walk fails with that same error.
  When two members of a batch fail with different errors, \<open>Promise.all\<close> rejects with the
  rejection that settles first, so the walk cannot carry both: the reviews of author 1
  fail with \<open>connection lost\<close> (moment 2), those of author 2 with \<open>timeout\<close> (moment 1),
  and the walk of \<open>authors.reviews\<close> from the publisher fails with \<open>timeout\<close>, not with
  the error of author 1.
\<close>

theorem failure_not_same_error_counterexample:
  "walk library (Single (Entity 0)) [''authors''] = Inr (Many [Entity 1, Entity 2])
   \<and> hop library (Single (Entity 1)) ''reviews'' = Inl (LoadError ''connection lost'')
   \<and> walk library (Single (Entity 0)) [''authors'', ''reviews'']
       = Inl (LoadError ''timeout'')
   \<and> walk library (Single (Entity 0)) [''authors'', ''reviews'']
       \<noteq> Inl (LoadError ''connection lost'')"
  by (simp add: library_def Promise_all_def)

text \<open>
  Claim C6, as the source has it. Let the walk of \<open>pre\<close> reach the frontier \<open>cur\<close> and let
  the resolution of the next edge fail with \<open>e\<close> on a member \<open>c\<close> of \<open>cur\<close> (the frontier
  itself when it is a single entity). Then the whole walk fails, whatever hops \<open>rest\<close>
  follow, and no frontier is returned; its error is the unchanged error of a failing
  member of that batch, and it is \<open>e\<close> when no member fails with another error.
\<close>

theorem failure_propagation:
  assumes "walk g root pre = Inr cur"
    and "c \<in> set (members cur)"
    and "hop g (Single c) path = Inl e"
  shows "(\<exists>c' e'. c' \<in> set (members cur) \<and> hop g (Single c') path = Inl e'
            \<and> walk g root (pre @ path # rest) = Inl e')
         \<and> ((\<forall>c'\<in>set (members cur). \<forall>e'. hop g (Single c') path = Inl e' \<longrightarrow> e' = e)
              \<longrightarrow> walk g root (pre @ path # rest) = Inl e)"
proof -
  from assms(2,3) obtain c' e' where c': "c' \<in> set (members cur)"
    and e': "hop g (Single c') path = Inl e'" and f: "hop g cur path = Inl e'"
    using hop_fails_member by blast
  from assms(1) f have w: "walk g root (pre @ path # rest) = Inl e'"
    by (rule walk_fails_at)
  show ?thesis
  proof (intro conjI impI)
    show "\<exists>c' e'. c' \<in> set (members cur) \<and> hop g (Single c') path = Inl e'
            \<and> walk g root (pre @ path # rest) = Inl e'"
      using c' e' w by blast
  next
    assume "\<forall>c'\<in>set (members cur). \<forall>e'. hop g (Single c') path = Inl e' \<longrightarrow> e' = e"
    with c' e' have "e' = e" by blast
    with w show "walk g root (pre @ path # rest) = Inl e" by simp
  qed
qed

theorem failure_propagation_witness:
  "walk library (Single (Entity 1)) [''books''] = Inr (Many [Entity 3, Entity 4])
   \<and> hop library (Single (Entity 3)) ''reviews'' = Inr (Many [Entity 8])
   \<and> hop library (Single (Entity 4)) ''reviews'' = Inl (LoadError ''timeout'')
   \<and> walk library (Single (Entity 1)) ([''books''] @ ''reviews'' # [''book''])
        = Inl (LoadError ''timeout'')"
proof -
  have h1: "walk library (Single (Entity 1)) [''books''] = Inr (Many [Entity 3, Entity 4])"
    by (simp add: library_def)
  have h2: "Entity 4 \<in> set (members (Many [Entity 3, Entity 4]))"
    by (simp add: members_def)
  have m3: "hop library (Single (Entity 3)) ''reviews'' = Inr (Many [Entity 8])"
    by (simp add: library_def)
  have h3: "hop library (Single (Entity 4)) ''reviews'' = Inl (LoadError ''timeout'')"
    by (simp add: library_def)
  have h4: "\<forall>c'\<in>set (members (Many [Entity 3, Entity 4])). \<forall>e'.
         hop library (Single c') ''reviews'' = Inl e' \<longrightarrow> e' = LoadError ''timeout''"
    using m3 h3 by (simp add: members_def del: hop.simps)
  show ?thesis
    using h1 m3 h3 h4 failure_propagation [OF h1 h2 h3, of "[''book'']"] by blast
qed

text \<open>
  Claim C7 (singular chaining). When every edge of the path is a reference that is set,
  walking the path from \<open>A\<close> returns the single entity that resolving \<open>e1\<close> on \<open>A\<close>, then
  \<open>e2\<close> on the result, and so on, arrives at.
\<close>

theorem singular_chaining:
  "resolve_chain g A es = Some C \<Longrightarrow>
     walk g (Single (Entity A)) es = Inr (Single (Entity C))"
  by (rule resolve_chain_walk)

theorem singular_chaining_witness:
  "resolve_chain library 3 [''author'', ''publisher''] = Some 0
   \<and> walk library (Single (Entity 3)) [''author'', ''publisher''] = Inr (Single (Entity 0))"
proof -
  have h: "resolve_chain library 3 [''author'', ''publisher''] = Some 0"
    by (simp add: library_def)
  show ?thesis using h singular_chaining [OF h] by simp
qed

text \<open>
  Claim C8 (malformed paths). The claim is that a traversal function that does not chain
  its reads makes the recorder raise an error before any edge is resolved. The \<open>get\<close>
  trap only pushes the name: the function \<open>b => (b.author, b.publisher)\<close>, which reads
  both properties from the probe itself, records \<open>[author, publisher]\<close> like the chain
  \<open>b => b.author.publisher\<close>, and \<open>load\<close> resolves that path.
\<close>

theorem no_malformed_path_detection_counterexample:
  "load library 3 (Comma (Get Lens (Str ''author'')) (Get Lens (Str ''publisher'')))
     = Inr (Single (Entity 0))"
  by (simp add: load_def record_paths_def get_trap_def library_def)

text \<open>
  Claim C8, as the source has it. A traversal function that only reads properties of
  the probe, chained or not, records every name it reads, in the order of evaluation,
  and \<open>load\<close> walks that path; no error is raised by the recorder. A function that calls
  the probe throws a \<open>TypeError\<close>, and \<open>load\<close> fails with it on every graph, before any
  edge is resolved.
\<close>

theorem recorder_records_every_read:
  "(\<not> has_call fn \<longrightarrow>
      record_paths fn = Inr (map String_of (reads fn))
      \<and> load g this fn = walk g (Single (Entity this)) (map String_of (reads fn)))
   \<and> (has_call fn \<longrightarrow> record_paths fn = Inl TypeError \<and> load g this fn = Inl TypeError)"
  by (simp add: load_def record_paths_def apply_fn_reads)

theorem recorder_records_every_read_witness:
  "\<not> has_call (Comma (Get Lens (Str ''author'')) (Get Lens (Str ''publisher'')))
   \<and> record_paths (Comma (Get Lens (Str ''author'')) (Get Lens (Str ''publisher'')))
       = Inr [''author'', ''publisher'']
   \<and> has_call (Get (Call (Get Lens (Str ''author''))) (Str ''publisher''))
   \<and> load library 3 (Get (Call (Get Lens (Str ''author''))) (Str ''publisher''))
       = Inl TypeError"
  using recorder_records_every_read
      [of "Comma (Get Lens (Str ''author'')) (Get Lens (Str ''publisher''))" library 3]
    recorder_records_every_read
      [of "Get (Call (Get Lens (Str ''author''))) (Str ''publisher'')" library 3]
  by simp

text \<open>
  Claim C9 (plurality is monotone). Once a hop has made the frontier an array, every
  walk of further hops that returns, returns an array: the frontier never goes back to a
  single value.
\<close>

theorem plurality_monotone:
  assumes "walk g root pre = Inr cur"
    and "hop g cur path = Inr (Many cs)"
    and "walk g root (pre @ path # rest) = Inr r"
  shows "\<exists>ys. r = Many ys"
proof -
  from assms(1,2) have "walk g root (pre @ path # rest) = walk g (Many cs) rest"
    by (simp add: walk_append)
  with assms(3) show ?thesis using walk_Many by simp
qed

theorem plurality_monotone_witness:
  "walk library (Single (Entity 0)) [] = Inr (Single (Entity 0))
   \<and> hop library (Single (Entity 0)) ''authors'' = Inr (Many [Entity 1, Entity 2])
   \<and> walk library (Single (Entity 0)) ([] @ ''authors'' # [''publisher''])
       = Inr (Many [Entity 0])
   \<and> (\<exists>ys. Many [Entity 0] = Many ys)"
proof -
  have h1: "walk library (Single (Entity 0)) [] = Inr (Single (Entity 0))" by simp
  have h2: "hop library (Single (Entity 0)) ''authors'' = Inr (Many [Entity 1, Entity 2])"
    by (simp add: library_def)
  have h3: "walk library (Single (Entity 0)) ([] @ ''authors'' # [''publisher''])
       = Inr (Many [Entity 0])"
    by (simp add: library_def Promise_all_def new_Set_def Set_add_def)
  show ?thesis using h1 h2 h3 plurality_monotone [OF h1 h2 h3] by simp
qed

text \<open>
  Claim C10 (absent value in a chain that has not fanned out). When a walk from the
  receiver has reached a single entity \<open>n\<close> whose reference \<open>path\<close> is unset and a hop
  remains, the walk fails with the \<open>TypeError\<close> of reading a property of \<open>undefined\<close>.
  And when a walk from the receiver returns \<open>undefined\<close>, the path is not empty, the
  frontier before every hop was a single entity, and the last hop is an unset reference
  of the entity reached before it.
\<close>

theorem absent_in_single_chain:
  "(walk g (Single (Entity this)) pre = Inr (Single (Entity n))
      \<and> g n path = Some (Reference Undefined) \<and> rest \<noteq> []
     \<longrightarrow> walk g (Single (Entity this)) (pre @ path # rest) = Inl TypeError)
   \<and> (walk g (Single (Entity this)) paths = Inr (Single Undefined)
     \<longrightarrow> paths \<noteq> []
       \<and> (\<forall>k<length paths. \<exists>m.
             walk g (Single (Entity this)) (take k paths) = Inr (Single (Entity m)))
       \<and> (\<exists>m. walk g (Single (Entity this)) (butlast paths) = Inr (Single (Entity m))
              \<and> g m (last paths) = Some (Reference Undefined)))"
proof (intro conjI impI)
  assume a: "walk g (Single (Entity this)) pre = Inr (Single (Entity n))
      \<and> g n path = Some (Reference Undefined) \<and> rest \<noteq> []"
  then obtain p ps where "rest = p # ps" by (cases rest) simp_all
  with a show "walk g (Single (Entity this)) (pre @ path # rest) = Inl TypeError"
    by (simp add: walk_append)
next
  let ?root = "Single (Entity this)"
  assume a: "walk g ?root paths = Inr (Single Undefined)"
  then show ne: "paths \<noteq> []" by auto
  from a show "\<forall>k<length paths. \<exists>m. walk g ?root (take k paths) = Inr (Single (Entity m))"
    using walk_Single_Undefined by blast
  from ne have len: "length paths - 1 < length paths" by simp
  from a len obtain m where "walk g ?root (take (length paths - 1) paths) = Inr (Single (Entity m))"
    using walk_Single_Undefined by blast
  then have bl: "walk g ?root (butlast paths) = Inr (Single (Entity m))"
    by (simp add: butlast_conv_take)
  from ne have "paths = butlast paths @ [last paths]" by simp
  then have "walk g ?root paths = walk g ?root (butlast paths @ [last paths])" by simp
  also have "\<dots> = hop g (Single (Entity m)) (last paths)"
    using bl by (simp add: walk_append split: sum.splits)
  finally have "hop g (Single (Entity m)) (last paths) = Inr (Single Undefined)"
    using a by simp
  then have "g m (last paths) = Some (Reference Undefined)"
    by (auto simp: await_edge_load_Single split: option.splits)
  with bl show "\<exists>m. walk g ?root (butlast paths) = Inr (Single (Entity m))
              \<and> g m (last paths) = Some (Reference Undefined)" by blast
qed

theorem absent_in_single_chain_witness:
  "walk library (Single (Entity 4)) [] = Inr (Single (Entity 4))
   \<and> library 4 ''image'' = Some (Reference Undefined)
   \<and> walk library (Single (Entity 4)) ([] @ ''image'' # [''author'']) = Inl TypeError
   \<and> walk library (Single (Entity 4)) [''image''] = Inr (Single Undefined)
   \<and> walk library (Single (Entity 4)) (butlast [''image'']) = Inr (Single (Entity 4))
   \<and> library 4 (last [''image'']) = Some (Reference Undefined)"
  using absent_in_single_chain
      [of library 4 "[]" 4 "''image''" "[''author'']" "[''image'']"]
  by (simp add: library_def)

end
